theory Spec2Isabelle
  imports Main "HOL-Library.AList"
begin

section \<open>Local process pool middleware: \<^verbatim>\<open>local_worker_manager.py\<close>\<close>

text \<open>
  A shallow embedding of \<^verbatim>\<open>compiler_opt/distributed/local/local_worker_manager.py\<close>.
  Every block of the source that runs under one lock is one function of the model (the
  lock makes the block atomic with respect to the other threads of the stub); the
  threads themselves are not modelled, the messages a thread receives are given to its
  function as a list. Python objects that are shared by reference (the futures) live in
  an explicit store.
\<close>

subsection \<open>Python values and exceptions\<close>

text \<open>
  The exceptions the source raises or lets escape. \<open>KeyError\<close> is raised by
  \<^verbatim>\<open>self._map[msgid]\<close> on a missing key, \<open>TypeError\<close> by subscripting \<^verbatim>\<open>None\<close> and by
  \<^verbatim>\<open>functools.partial\<close> on an attribute that is not callable, \<open>AttributeError\<close> by
  \<^verbatim>\<open>getattr\<close>, \<open>InvalidStateError\<close> by \<^verbatim>\<open>Future.set_result\<close> and
  \<^verbatim>\<open>Future.set_exception\<close> on a future that is already done. \<open>AppError\<close> stands for
  an exception raised by a method of the hosted object, \<open>OSError\<close> for a failure of a
  process primitive.
\<close>

datatype exn =
    CancelledError
  | KeyError int
  | InvalidStateError
  | TypeError
  | AttributeError string
  | AppError string
  | OSError string

datatype pyval = PyNone | PyInt int | PyStr string | PyExc exn

subsection \<open>The envelopes\<close>

record Task =
  msgid :: int
  func_name :: string
  args :: "pyval list"
  kwargs :: "(string \<times> pyval) list"
  is_urgent :: bool

text \<open>The fields of \<^verbatim>\<open>TaskResult\<close> carry the prefix \<open>r_\<close>: \<^verbatim>\<open>msgid\<close>, \<^verbatim>\<open>success\<close>, \<^verbatim>\<open>value\<close>.\<close>

record TaskResult =
  r_msgid :: int
  r_success :: bool
  r_value :: pyval

subsection \<open>Futures\<close>

text \<open>
  A \<^verbatim>\<open>concurrent.futures.Future\<close> is pending or finished with a result or with an
  exception. Futures are objects shared between the caller and the stub's table, so they
  live in a store indexed by address. \<^verbatim>\<open>set_result\<close> and \<^verbatim>\<open>set_exception\<close> raise
  \<^verbatim>\<open>InvalidStateError\<close> on a future that is already finished, and accept any object as
  the exception.
\<close>

datatype future = Pending | Finished_result pyval | Finished_exception pyval

type_synonym store = "nat \<Rightarrow> future"

definition set_result :: "store \<Rightarrow> nat \<Rightarrow> pyval \<Rightarrow> exn + store" where
  "set_result h f v =
     (if h f = Pending then Inr (h(f := Finished_result v)) else Inl InvalidStateError)"

definition set_exception :: "store \<Rightarrow> nat \<Rightarrow> pyval \<Rightarrow> exn + store" where
  "set_exception h f e =
     (if h f = Pending then Inr (h(f := Finished_exception e)) else Inl InvalidStateError)"

subsection \<open>The stub\<close>

text \<open>
  The state of one \<^verbatim>\<open>_Stub\<close>: \<open>stub_process\<close> is the handle of the process it
  spawned, \<open>stub_pipe\<close> the Tasks sent on \<^verbatim>\<open>self._pipe\<close> (oldest first), \<open>stub_map\<close> is
  \<^verbatim>\<open>self._map\<close> (a Python dict keeps insertion order: an association list; \<open>None\<close> once
  the stub has stopped), \<open>stub_msgid\<close> is \<^verbatim>\<open>self._msgid\<close>. \<open>futures\<close> is the store of
  the futures this stub has created and \<open>next_future\<close> the address of the next one.
\<close>

record stub =
  stub_process :: nat
  stub_pipe :: "Task list"
  stub_map :: "(int \<times> nat) list option"
  stub_msgid :: int
  futures :: store
  next_future :: nat

text \<open>\<^verbatim>\<open>_Stub.__init__\<close>, given the handle of the process it starts.\<close>

definition make_stub :: "nat \<Rightarrow> stub" where
  "make_stub p =
     \<lparr>stub_process = p, stub_pipe = [], stub_map = Some [], stub_msgid = 0,
      futures = (\<lambda>_. Pending), next_future = 0\<rparr>"


subsubsection \<open>The message pump\<close>

text \<open>
  The body of \<^verbatim>\<open>with self._lock:\<close> in the loop of \<^verbatim>\<open>_msg_pump\<close>, for one TaskResult. The
  result is the exception that escapes (if any) and the state left behind: the entry is
  already deleted when \<^verbatim>\<open>set_result\<close> raises.
\<close>

definition pump_deliver :: "stub \<Rightarrow> TaskResult \<Rightarrow> exn option \<times> stub" where
  "pump_deliver s task_result =
     (case stub_map s of
        None \<Rightarrow> (Some TypeError, s)
      | Some m \<Rightarrow>
          (case map_of m (r_msgid task_result) of
             None \<Rightarrow> (Some (KeyError (r_msgid task_result)), s)
           | Some future \<Rightarrow>
               (let s1 = s\<lparr>stub_map := Some (AList.delete (r_msgid task_result) m)\<rparr> in
                case (if r_success task_result
                      then set_result (futures s1) future (r_value task_result)
                      else set_exception (futures s1) future (r_value task_result)) of
                  Inl e \<Rightarrow> (Some e, s1)
                | Inr h \<Rightarrow> (None, s1\<lparr>futures := h\<rparr>))))"

text \<open>The loop \<^verbatim>\<open>for _, v in self._map.items(): v.set_exception(CancelledError())\<close>.\<close>

fun cancel_all :: "store \<Rightarrow> nat list \<Rightarrow> exn option \<times> store" where
  "cancel_all h [] = (None, h)"
| "cancel_all h (v # vs) =
     (case set_exception h v (PyExc CancelledError) of
        Inl e \<Rightarrow> (Some e, h)
      | Inr h' \<Rightarrow> cancel_all h' vs)"

text \<open>The block after the loop of \<^verbatim>\<open>_msg_pump\<close>: cancel what is pending, then null the map.\<close>

definition pump_cleanup :: "stub \<Rightarrow> exn option \<times> stub" where
  "pump_cleanup s =
     (case stub_map s of
        None \<Rightarrow> (Some (AttributeError ''items''), s)
      | Some m \<Rightarrow>
          (case cancel_all (futures s) (map snd m) of
             (Some e, h) \<Rightarrow> (Some e, s\<lparr>futures := h\<rparr>)
           | (None, h) \<Rightarrow> (None, s\<lparr>futures := h, stub_map := None\<rparr>)))"

text \<open>
  \<^verbatim>\<open>_msg_pump\<close> on the messages that arrive on the pipe, \<open>None\<close> being the poison pill of
  the observer. With no message left the thread is blocked in \<^verbatim>\<open>recv\<close>.
\<close>

datatype pump_status = Blocked | Exited | Crashed exn

fun msg_pump :: "stub \<Rightarrow> TaskResult option list \<Rightarrow> pump_status \<times> stub" where
  "msg_pump s [] = (Blocked, s)"
| "msg_pump s (None # rest) =
     (case pump_cleanup s of
        (Some e, s') \<Rightarrow> (Crashed e, s')
      | (None, s') \<Rightarrow> (Exited, s'))"
| "msg_pump s (Some task_result # rest) =
     (case pump_deliver s task_result of
        (Some e, s') \<Rightarrow> (Crashed e, s')
      | (None, s') \<Rightarrow> msg_pump s' rest)"

subsubsection \<open>Remote calls\<close>

text \<open>
  \<^verbatim>\<open>__getattr__\<close> creates the future, takes the next msgid and returns the closure
  \<^verbatim>\<open>remote_call\<close>; a closure is the record of the variables it captured. Python calls
  \<^verbatim>\<open>__getattr__\<close> for every name that is not an attribute of the stub itself.
\<close>

record callable =
  c_msgid :: int
  c_name :: string
  c_future :: nat

definition stub_getattr :: "stub \<Rightarrow> string \<Rightarrow> callable \<times> stub" where
  "stub_getattr s name =
     (let result_future = next_future s;
          s1 = s\<lparr>futures := (futures s)(result_future := Pending),
                 next_future := Suc (next_future s)\<rparr>;
          msgid' = stub_msgid s1;
          s2 = s1\<lparr>stub_msgid := stub_msgid s1 + 1\<rparr>
      in (\<lparr>c_msgid = msgid', c_name = name, c_future = result_future\<rparr>, s2))"

text \<open>
  One invocation of the closure; \<open>is_priority_method\<close> is the predicate of the hosted
  class. The case \<open>None\<close> is the branch \<^verbatim>\<open>self._is_stopped()\<close>. The result is the future
  returned or the exception raised, and the state left behind.
\<close>

definition remote_call ::
  "(string \<Rightarrow> bool) \<Rightarrow> stub \<Rightarrow> callable \<Rightarrow> pyval list \<Rightarrow> (string \<times> pyval) list
     \<Rightarrow> (exn + nat) \<times> stub" where
  "remote_call is_priority_method s c args' kwargs' =
     (case stub_map s of
        None \<Rightarrow>
          (case set_exception (futures s) (c_future c) (PyExc CancelledError) of
             Inl e \<Rightarrow> (Inl e, s)
           | Inr h \<Rightarrow> (Inr (c_future c), s\<lparr>futures := h\<rparr>))
      | Some m \<Rightarrow>
          (let s1 = s\<lparr>stub_pipe := stub_pipe s @
                        [\<lparr>msgid = c_msgid c, func_name = c_name c, args = args',
                          kwargs = kwargs',
                          is_urgent = is_priority_method (c_name c)\<rparr>]\<rparr>;
               s2 = s1\<lparr>stub_map := Some (AList.update (c_msgid c) (c_future c) m)\<rparr>
           in (Inr (c_future c), s2)))"

subsection \<open>The worker process\<close>

text \<open>
  The hosted object is the state \<open>'o\<close> and the attributes of its class: a method takes the
  state, the positional and the keyword arguments, and returns or raises, leaving a new
  state; any other attribute is not callable. The worker's own state is the hosted
  object, the TaskResults it has sent on its pipe (oldest first) and the jobs submitted
  to the thread pool of one thread that have not run yet.
\<close>

datatype outcome = Returns pyval | Raises exn

datatype 'o attr =
    Method "'o \<Rightarrow> pyval list \<Rightarrow> (string \<times> pyval) list \<Rightarrow> outcome \<times> 'o"
  | Data pyval

record 'o worker =
  hosted :: 'o
  worker_pipe :: "TaskResult list"
  pool_queue :: "(int \<times> ('o \<Rightarrow> outcome \<times> 'o)) list"

text \<open>\<^verbatim>\<open>send\<close>: the channel is reliable, every message sent is delivered.\<close>

definition send :: "'o worker \<Rightarrow> TaskResult \<Rightarrow> 'o worker" where
  "send w task_result = w\<lparr>worker_pipe := worker_pipe w @ [task_result]\<rparr>"

text \<open>\<^verbatim>\<open>on_done\<close> of \<^verbatim>\<open>make_ondone(msgid)\<close>, on the outcome of the finished job.\<close>

definition on_done :: "int \<Rightarrow> 'o worker \<Rightarrow> outcome \<Rightarrow> 'o worker" where
  "on_done msgid' w f =
     (case f of
        Raises e \<Rightarrow> send w \<lparr>r_msgid = msgid', r_success = False, r_value = PyExc e\<rparr>
      | Returns v \<Rightarrow> send w \<lparr>r_msgid = msgid', r_success = True, r_value = v\<rparr>)"

text \<open>The pool's thread runs the oldest job and calls its done-callback.\<close>

definition pool_run_next :: "'o worker \<Rightarrow> 'o worker" where
  "pool_run_next w =
     (case pool_queue w of
        [] \<Rightarrow> w
      | (msgid', application) # jobs \<Rightarrow>
          (case application (hosted w) of
             (f, ob) \<Rightarrow> on_done msgid' (w\<lparr>hosted := ob, pool_queue := jobs\<rparr>) f))"

text \<open>
  One round of the loop of \<^verbatim>\<open>_run_impl\<close>, on the Task received. \<^verbatim>\<open>getattr\<close> and
  \<^verbatim>\<open>functools.partial\<close> stand outside the \<^verbatim>\<open>try\<close>: what they raise leaves the loop.
\<close>

definition dispatch :: "(string \<rightharpoonup> 'o attr) \<Rightarrow> 'o worker \<Rightarrow> Task \<Rightarrow> exn + 'o worker" where
  "dispatch attrs w task =
     (case attrs (func_name task) of
        None \<Rightarrow> Inl (AttributeError (func_name task))
      | Some (Data _) \<Rightarrow> Inl TypeError
      | Some (Method the_func) \<Rightarrow>
          (let application = (\<lambda>ob. the_func ob (args task) (kwargs task)) in
           if is_urgent task then
             (case application (hosted w) of
                (Returns res, ob) \<Rightarrow>
                  Inr (send (w\<lparr>hosted := ob\<rparr>)
                         \<lparr>r_msgid = msgid task, r_success = True, r_value = res\<rparr>)
              | (Raises e, ob) \<Rightarrow>
                  Inr (send (w\<lparr>hosted := ob\<rparr>)
                         \<lparr>r_msgid = msgid task, r_success = False, r_value = PyExc e\<rparr>))
           else Inr (w\<lparr>pool_queue := pool_queue w @ [(msgid task, application)]\<rparr>)))"

text \<open>
  \<^verbatim>\<open>_run_impl\<close> on the Tasks that arrive: the exception that ends the loop, or \<open>None\<close>
  when the loop is blocked in \<^verbatim>\<open>recv\<close> with every Task dispatched.
\<close>

fun run_impl :: "(string \<rightharpoonup> 'o attr) \<Rightarrow> 'o worker \<Rightarrow> Task list \<Rightarrow> exn option \<times> 'o worker" where
  "run_impl attrs w [] = (None, w)"
| "run_impl attrs w (task # tasks) =
     (case dispatch attrs w task of
        Inl e \<Rightarrow> (Some e, w)
      | Inr w' \<Rightarrow> run_impl attrs w' tasks)"

text \<open>\<^verbatim>\<open>_run\<close>: log the exception and raise it again. The third component is the log.\<close>

definition run :: "(string \<rightharpoonup> 'o attr) \<Rightarrow> 'o worker \<Rightarrow> Task list
    \<Rightarrow> exn option \<times> 'o worker \<times> exn list" where
  "run attrs w tasks =
     (case run_impl attrs w tasks of
        (Some e, w') \<Rightarrow> (Some e, w', [e])
      | (None, w') \<Rightarrow> (None, w', []))"

text \<open>The worker at the start of \<^verbatim>\<open>_run_impl\<close>, \<open>ob\<close> being the object constructed.\<close>

definition new_worker :: "'o \<Rightarrow> 'o worker" where
  "new_worker ob = \<lparr>hosted = ob, worker_pipe = [], pool_queue = []\<rparr>"

subsection \<open>Shutdown, join and the pool\<close>

text \<open>
  The calls on the process and thread primitives are recorded in a trace. Whether
  \<^verbatim>\<open>Process.kill\<close> raises is a parameter, a function of the process handle.
\<close>

datatype event = Kill nat | JoinObserver nat | JoinPump nat | JoinProcess nat

definition process_kill :: "(nat \<Rightarrow> exn option) \<Rightarrow> nat \<Rightarrow> event list \<Rightarrow> exn option \<times> event list" where
  "process_kill kill p tr = (kill p, tr @ [Kill p])"

text \<open>\<^verbatim>\<open>_Stub.shutdown\<close>: \<^verbatim>\<open>try: self._process.kill()\<close>, \<^verbatim>\<open>except: pass\<close>.\<close>

definition shutdown :: "(nat \<Rightarrow> exn option) \<Rightarrow> stub \<Rightarrow> event list \<Rightarrow> exn option \<times> event list" where
  "shutdown kill s tr =
     (case process_kill kill (stub_process s) tr of
        (Some e, tr') \<Rightarrow> (None, tr')
      | (None, tr') \<Rightarrow> (None, tr'))"

text \<open>\<^verbatim>\<open>_Stub.join\<close>: the observer, the pump, the process.\<close>

definition join :: "stub \<Rightarrow> event list \<Rightarrow> event list" where
  "join s tr =
     tr @ [JoinObserver (stub_process s), JoinPump (stub_process s),
           JoinProcess (stub_process s)]"

text \<open>
  \<^verbatim>\<open>range(count)\<close> is empty for a count that is not positive. \<^verbatim>\<open>LocalWorkerPool.__init__\<close>
  takes the host's \<^verbatim>\<open>multiprocessing.cpu_count()\<close> as a parameter; \<^verbatim>\<open>not count\<close> holds
  for \<^verbatim>\<open>None\<close> and for 0. The processes are named by the order in which they start.
\<close>

definition range_upto :: "int \<Rightarrow> nat list" where
  "range_upto n = [0..<nat n]"

definition LocalWorkerPool_init :: "int \<Rightarrow> int option \<Rightarrow> stub list" where
  "LocalWorkerPool_init cpu_count count =
     (let count' = (case count of
                      None \<Rightarrow> cpu_count
                    | Some c \<Rightarrow> if c = 0 then cpu_count else c)
      in map make_stub (range_upto count'))"

definition LocalWorkerPool_enter :: "stub list \<Rightarrow> stub list" where
  "LocalWorkerPool_enter stubs = stubs"

text \<open>The two loops of \<^verbatim>\<open>__exit__\<close>; an exception of the first would skip the second.\<close>

fun shutdown_all :: "(nat \<Rightarrow> exn option) \<Rightarrow> stub list \<Rightarrow> event list \<Rightarrow> exn option \<times> event list" where
  "shutdown_all kill [] tr = (None, tr)"
| "shutdown_all kill (s # ss) tr =
     (case shutdown kill s tr of
        (Some e, tr') \<Rightarrow> (Some e, tr')
      | (None, tr') \<Rightarrow> shutdown_all kill ss tr')"

fun join_all :: "stub list \<Rightarrow> event list \<Rightarrow> event list" where
  "join_all [] tr = tr"
| "join_all (s # ss) tr = join_all ss (join s tr)"

definition LocalWorkerPool_exit :: "(nat \<Rightarrow> exn option) \<Rightarrow> stub list \<Rightarrow> event list
    \<Rightarrow> exn option \<times> event list" where
  "LocalWorkerPool_exit kill stubs tr =
     (case shutdown_all kill stubs tr of
        (Some e, tr') \<Rightarrow> (Some e, tr')
      | (None, tr') \<Rightarrow> (None, join_all stubs tr'))"

subsection \<open>Callers\<close>

text \<open>
  A caller that invokes one closure once for every argument pair of a list, whatever the
  earlier invocations returned or raised.
\<close>

fun invoke_all ::
  "(string \<Rightarrow> bool) \<Rightarrow> stub \<Rightarrow> callable \<Rightarrow> (pyval list \<times> (string \<times> pyval) list) list
     \<Rightarrow> (exn + nat) list \<times> stub" where
  "invoke_all is_priority_method s c [] = ([], s)"
| "invoke_all is_priority_method s c ((args', kwargs') # calls) =
     (case remote_call is_priority_method s c args' kwargs' of
        (r, s') \<Rightarrow>
          (case invoke_all is_priority_method s' c calls of
             (rs, s'') \<Rightarrow> (r # rs, s'')))"

text \<open>
  The states of a stub whose callers invoke every closure at most once, together with the
  closures that have been looked up and not invoked yet. The callers' lookups and
  invocations and the pump's rounds interleave in any order: each rule is one block of
  the source under its lock.
\<close>

inductive reachable :: "stub \<Rightarrow> callable set \<Rightarrow> bool" where
  reachable_init: "reachable (make_stub p) {}"
| reachable_access:
    "reachable s P \<Longrightarrow> stub_getattr s name = (c, s1) \<Longrightarrow> reachable s1 (insert c P)"
| reachable_invoke:
    "reachable s P \<Longrightarrow> c \<in> P
       \<Longrightarrow> remote_call is_priority_method s c args' kwargs' = (r, s2)
       \<Longrightarrow> reachable s2 (P - {c})"
| reachable_deliver:
    "reachable s P \<Longrightarrow> pump_deliver s task_result = (r, s') \<Longrightarrow> reachable s' P"
| reachable_cleanup:
    "reachable s P \<Longrightarrow> pump_cleanup s = (r, s') \<Longrightarrow> reachable s' P"

text \<open>
  What holds in those states. The table has one entry per msgid, no future twice, only
  msgids and futures that have been handed out, and only unresolved futures. A closure
  that waits to be invoked has a msgid and an unresolved future that no other closure,
  no entry of the table and no Task on the pipe has. The Tasks on the pipe have
  different msgids, all handed out. A future that is unresolved belongs to a waiting
  closure or is in the table.
\<close>

definition table_inv :: "stub \<Rightarrow> bool" where
  "table_inv s =
     (case stub_map s of
        None \<Rightarrow> True
      | Some m \<Rightarrow>
          distinct (map fst m) \<and> distinct (map snd m)
          \<and> (\<forall>(k, f)\<in>set m. k < stub_msgid s \<and> f < next_future s \<and> futures s f = Pending))"

definition closures_inv :: "stub \<Rightarrow> callable set \<Rightarrow> bool" where
  "closures_inv s P =
     ((\<forall>c\<in>P. c_msgid c < stub_msgid s \<and> c_future c < next_future s
            \<and> futures s (c_future c) = Pending
            \<and> c_msgid c \<notin> msgid ` set (stub_pipe s)
            \<and> (\<forall>m. stub_map s = Some m \<longrightarrow>
                  c_msgid c \<notin> fst ` set m \<and> c_future c \<notin> snd ` set m))
      \<and> inj_on c_msgid P \<and> inj_on c_future P)"

definition pipe_inv :: "stub \<Rightarrow> bool" where
  "pipe_inv s =
     (distinct (map msgid (stub_pipe s))
      \<and> (\<forall>t\<in>set (stub_pipe s). msgid t < stub_msgid s))"

definition no_orphan :: "stub \<Rightarrow> callable set \<Rightarrow> bool" where
  "no_orphan s P =
     (\<forall>f<next_future s. futures s f = Pending \<longrightarrow>
        f \<in> c_future ` P \<or> (case stub_map s of None \<Rightarrow> False | Some m \<Rightarrow> f \<in> snd ` set m))"

definition stub_inv :: "stub \<Rightarrow> callable set \<Rightarrow> bool" where
  "stub_inv s P = (table_inv s \<and> closures_inv s P \<and> pipe_inv s \<and> no_orphan s P)"

subsection \<open>Example runs\<close>

text \<open>
  A fresh stub on which \<^verbatim>\<open>echo\<close> is looked up, the state after \<^verbatim>\<open>stub.echo(5)\<close>, and
  the state after a second call \<^verbatim>\<open>stub.work()\<close>.
\<close>

definition echo_access :: "callable \<times> stub" where
  "echo_access = stub_getattr (make_stub 0) ''echo''"

definition echo_called :: stub where
  "echo_called = snd (remote_call (\<lambda>_. False) (snd echo_access) (fst echo_access) [PyInt 5] [])"



text \<open>\<^verbatim>\<open>f = stub.echo; f(5); f(6)\<close>: the closure of the first lookup invoked a second time.\<close>

definition echo_called_twice :: stub where
  "echo_called_twice = snd (remote_call (\<lambda>_. False) echo_called (fst echo_access) [PyInt 6] [])"

text \<open>A stub whose pump has received the poison pill, and a lookup on it.\<close>

definition stopped_stub :: stub where
  "stopped_stub = snd (msg_pump (make_stub 0) [None])"

definition stopped_access :: "callable \<times> stub" where
  "stopped_access = stub_getattr stopped_stub ''echo''"

text \<open>
  A hosted class with the methods \<^verbatim>\<open>echo\<close> (returns its first argument) and \<^verbatim>\<open>fail\<close>
  (raises), and no state.
\<close>

definition echo_class :: "string \<rightharpoonup> unit attr" where
  "echo_class =
     [''echo'' \<mapsto> Method (\<lambda>ob a k. (case a of [] \<Rightarrow> Raises TypeError | v # _ \<Rightarrow> Returns v, ob)),
      ''fail'' \<mapsto> Method (\<lambda>ob a k. (Raises (AppError ''x''), ob))]"

section \<open>Properties\<close>

subsection \<open>The steps of the stub\<close>

text \<open>A key that is not in a dict is added at its end.\<close>

lemma update_fresh_key:
  "k \<notin> fst ` set m \<Longrightarrow> AList.update k v m = m @ [(k, v)]"
  by (induction m) auto

text \<open>Cancelling a list of distinct unresolved futures never raises and fails exactly them.\<close>

lemma cancel_all_pending:
  "distinct vs \<Longrightarrow> \<forall>v\<in>set vs. h v = Pending \<Longrightarrow>
   cancel_all h vs =
     (None, \<lambda>x. if x \<in> set vs then Finished_exception (PyExc CancelledError) else h x)"
proof (induction vs arbitrary: h)
  case Nil
  then show ?case by simp
next
  case (Cons v vs)
  let ?h' = "h(v := Finished_exception (PyExc CancelledError))"
  from Cons.prems have step: "set_exception h v (PyExc CancelledError) = Inr ?h'"
    by (simp add: set_exception_def)
  from Cons.prems have "distinct vs" and "\<forall>x\<in>set vs. ?h' x = Pending"
    by auto
  then have "cancel_all ?h' vs =
      (None, \<lambda>x. if x \<in> set vs then Finished_exception (PyExc CancelledError) else ?h' x)"
    by (rule Cons.IH)
  with step show ?case by (auto simp: fun_eq_iff)
qed

text \<open>What each block of the source does to the state, where it does not raise.\<close>

lemma stub_getattr_eq:
  "stub_getattr s name =
     (\<lparr>c_msgid = stub_msgid s, c_name = name, c_future = next_future s\<rparr>,
      s\<lparr>futures := (futures s)(next_future s := Pending),
        next_future := Suc (next_future s),
        stub_msgid := stub_msgid s + 1\<rparr>)"
  by (simp add: stub_getattr_def Let_def)

lemma stopped_invocation:
  assumes "stub_map s = None" and "futures s (c_future c) = Pending"
  shows "remote_call prio s c a k =
           (Inr (c_future c),
            s\<lparr>futures := (futures s)(c_future c := Finished_exception (PyExc CancelledError))\<rparr>)"
  using assms by (simp add: remote_call_def set_exception_def)

lemma remote_call_live_fresh:
  assumes "stub_map s = Some m" and "c_msgid c \<notin> fst ` set m"
  shows "remote_call prio s c a k =
           (Inr (c_future c),
            s\<lparr>stub_pipe := stub_pipe s @
                  [\<lparr>msgid = c_msgid c, func_name = c_name c, args = a, kwargs = k,
                    is_urgent = prio (c_name c)\<rparr>],
              stub_map := Some (m @ [(c_msgid c, c_future c)])\<rparr>)"
  using assms by (simp add: remote_call_def Let_def update_fresh_key)

lemma pump_deliver_entry:
  assumes "stub_map s = Some m" and "map_of m (r_msgid tr) = Some f"
    and "futures s f = Pending"
  shows "pump_deliver s tr =
           (None, s\<lparr>stub_map := Some (AList.delete (r_msgid tr) m),
                    futures := (futures s)
                      (f := if r_success tr then Finished_result (r_value tr)
                            else Finished_exception (r_value tr))\<rparr>)"
  using assms by (simp add: pump_deliver_def set_result_def set_exception_def Let_def)

lemma pump_deliver_no_entry:
  assumes "stub_map s = None \<or> (\<exists>m. stub_map s = Some m \<and> map_of m (r_msgid tr) = None)"
  shows "snd (pump_deliver s tr) = s"
  using assms by (auto simp: pump_deliver_def)

lemma pump_cleanup_live:
  assumes "stub_map s = Some m" and "distinct (map snd m)"
    and "\<forall>f\<in>set (map snd m). futures s f = Pending"
  shows "pump_cleanup s =
           (None, s\<lparr>futures := (\<lambda>x. if x \<in> set (map snd m)
                                       then Finished_exception (PyExc CancelledError)
                                       else futures s x),
                    stub_map := None\<rparr>)"
  using assms by (simp add: pump_cleanup_def cancel_all_pending)

lemma pump_cleanup_stopped:
  assumes "stub_map s = None"
  shows "snd (pump_cleanup s) = s"
  using assms by (simp add: pump_cleanup_def)

lemma delete_entry_futures:
  assumes "distinct (map fst m)" and "distinct (map snd m)" and "map_of m k = Some f"
  shows "snd ` set (AList.delete k m) = snd ` set m - {f}"
proof -
  from assms(3) have mem: "(k, f) \<in> set m" by (rule map_of_SomeD)
  have "g \<in> snd ` set (AList.delete k m) \<longleftrightarrow> g \<in> snd ` set m \<and> g \<noteq> f" for g
  proof
    assume "g \<in> snd ` set (AList.delete k m)"
    then obtain k' where in_d: "(k', g) \<in> set m" and ne: "k' \<noteq> k"
      by (auto simp: AList.delete_eq)
    have "g \<noteq> f"
    proof
      assume "g = f"
      with in_d mem assms(2) have "(k', f) = (k, f)"
        by (metis distinct_map inj_on_def snd_conv)
      with ne show False by simp
    qed
    with in_d show "g \<in> snd ` set m \<and> g \<noteq> f" by force
  next
    assume "g \<in> snd ` set m \<and> g \<noteq> f"
    then obtain k' where in_m: "(k', g) \<in> set m" and ne: "g \<noteq> f" by force
    have "k' \<noteq> k"
    proof
      assume "k' = k"
      with in_m assms(1) have "map_of m k = Some g" by simp
      with assms(3) ne show False by simp
    qed
    with in_m have "(k', g) \<in> set (AList.delete k m)"
      by (auto simp: AList.delete_eq)
    then show "g \<in> snd ` set (AList.delete k m)" by force
  qed
  then show ?thesis by blast
qed

lemma delete_entry_keys: "fst ` set (AList.delete k m) = fst ` set m - {k}"
  by (auto simp: AList.delete_eq)

subsection \<open>Invariants of the table, the closures and the pipe\<close>

lemma closures_invD:
  assumes "closures_inv s P" and "d \<in> P"
  shows "c_msgid d < stub_msgid s" and "c_future d < next_future s"
    and "futures s (c_future d) = Pending"
    and "c_msgid d \<notin> msgid ` set (stub_pipe s)"
    and "stub_map s = Some m \<Longrightarrow> c_msgid d \<notin> fst ` set m"
    and "stub_map s = Some m \<Longrightarrow> c_future d \<notin> snd ` set m"
  using assms unfolding closures_inv_def by blast+

lemma closures_inv_inj:
  assumes "closures_inv s P"
  shows "inj_on c_msgid P" and "inj_on c_future P"
  using assms unfolding closures_inv_def by blast+

lemma closures_invI:
  assumes "\<And>d. d \<in> P \<Longrightarrow> c_msgid d < stub_msgid s \<and> c_future d < next_future s
            \<and> futures s (c_future d) = Pending
            \<and> c_msgid d \<notin> msgid ` set (stub_pipe s)
            \<and> (\<forall>m. stub_map s = Some m \<longrightarrow>
                  c_msgid d \<notin> fst ` set m \<and> c_future d \<notin> snd ` set m)"
    and "inj_on c_msgid P" and "inj_on c_future P"
  shows "closures_inv s P"
  using assms unfolding closures_inv_def by blast

lemma stub_inv_init: "stub_inv (make_stub p) {}"
  by (simp add: stub_inv_def table_inv_def closures_inv_def pipe_inv_def no_orphan_def
      make_stub_def)

lemma table_inv_access:
  assumes t: "table_inv s"
  and  s1: "s1 = s\<lparr>futures := (futures s)(next_future s := Pending),
                     next_future := Suc (next_future s),
                     stub_msgid := stub_msgid s + 1\<rparr>"
  shows  "table_inv s1"
    using t unfolding s1 table_inv_def by (auto split: option.splits)

lemma pipe_inv_access:
  assumes pi: "pipe_inv s"
  and  s1: "s1 = s\<lparr>futures := (futures s)(next_future s := Pending),
                     next_future := Suc (next_future s),
                     stub_msgid := stub_msgid s + 1\<rparr>"
  shows "pipe_inv s1"
    using pi unfolding s1 pipe_inv_def by auto

lemma closures_inv_access:
  assumes t: "table_inv s" and cl: "closures_inv s P" and pi: "pipe_inv s"
  and c: "c = \<lparr>c_msgid = stub_msgid s, c_name = name, c_future = next_future s\<rparr>"
  and  s1: "s1 = s\<lparr>futures := (futures s)(next_future s := Pending),
                     next_future := Suc (next_future s),
                     stub_msgid := stub_msgid s + 1\<rparr>"
  shows "closures_inv s1 (insert c P)"
proof (rule closures_invI)
  show "inj_on c_msgid (insert c P)"
  proof (rule inj_on_insert [THEN iffD2], intro conjI)
    show "inj_on c_msgid P" by (rule closures_inv_inj [OF cl])
    show "c_msgid c \<notin> c_msgid ` (P - {c})"
    proof
      assume "c_msgid c \<in> c_msgid ` (P - {c})"
      then obtain d where "d \<in> P" and "c_msgid c = c_msgid d" by blast
      with closures_invD(1) [OF cl \<open>d \<in> P\<close>] show False by (simp add: c)
    qed
  qed
  show "inj_on c_future (insert c P)"
  proof (rule inj_on_insert [THEN iffD2], intro conjI)
    show "inj_on c_future P" by (rule closures_inv_inj [OF cl])
    show "c_future c \<notin> c_future ` (P - {c})"
    proof
      assume "c_future c \<in> c_future ` (P - {c})"
      then obtain d where "d \<in> P" and "c_future c = c_future d" by blast
      with closures_invD(2) [OF cl \<open>d \<in> P\<close>] show False by (simp add: c)
    qed
  qed
next
  fix d assume d: "d \<in> insert c P"
  show "c_msgid d < stub_msgid s1 \<and> c_future d < next_future s1
            \<and> futures s1 (c_future d) = Pending
            \<and> c_msgid d \<notin> msgid ` set (stub_pipe s1)
            \<and> (\<forall>m. stub_map s1 = Some m \<longrightarrow>
                  c_msgid d \<notin> fst ` set m \<and> c_future d \<notin> snd ` set m)"
  proof (cases "d = c")
    case True
    have "stub_msgid s \<notin> fst ` set m" and "next_future s \<notin> snd ` set m"
      if "stub_map s = Some m" for m
      using t that by (auto simp: table_inv_def)
    moreover have "stub_msgid s \<notin> msgid ` set (stub_pipe s)"
      using pi by (auto simp: pipe_inv_def)
    ultimately show ?thesis
      unfolding True c s1 by simp
  next
    case False
    with d have "d \<in> P" by simp
    note old = closures_invD [OF cl this]
    from old(2) have "c_future d \<noteq> next_future s" by simp
    with old show ?thesis
      unfolding s1 by simp
  qed
qed

lemma no_orphan_access:
  assumes no: "no_orphan s P"
  and c: "c = \<lparr>c_msgid = stub_msgid s, c_name = name, c_future = next_future s\<rparr>"
  and  s1: "s1 = s\<lparr>futures := (futures s)(next_future s := Pending),
                     next_future := Suc (next_future s),
                     stub_msgid := stub_msgid s + 1\<rparr>"
  shows "no_orphan s1 (insert c P)"
  unfolding no_orphan_def
proof (intro allI impI)
  fix f assume lt: "f < next_future s1" and p: "futures s1 f = Pending"
  show "f \<in> c_future ` insert c P
        \<or> (case stub_map s1 of None \<Rightarrow> False | Some m \<Rightarrow> f \<in> snd ` set m)"
  proof (cases "f = next_future s")
    case True
    then show ?thesis by (simp add: c)
  next
    case False
    with lt p have "f < next_future s" "futures s f = Pending"
      by (simp_all add: s1)
    with no have "f \<in> c_future ` P
        \<or> (case stub_map s of None \<Rightarrow> False | Some m \<Rightarrow> f \<in> snd ` set m)"
      by (simp add: no_orphan_def)
    then show ?thesis by (auto simp: s1)
  qed
qed

lemma stub_inv_access:
  assumes inv: "stub_inv s P" and acc: "stub_getattr s name = (c, s1)"
  shows "stub_inv s1 (insert c P)"
proof -
  from acc have c: "c = \<lparr>c_msgid = stub_msgid s, c_name = name, c_future = next_future s\<rparr>"
    and s1: "s1 = s\<lparr>futures := (futures s)(next_future s := Pending),
                     next_future := Suc (next_future s),
                     stub_msgid := stub_msgid s + 1\<rparr>"
    by (simp_all add: stub_getattr_eq)
  from inv have t: "table_inv s" and cl: "closures_inv s P" and pi: "pipe_inv s"
    and no: "no_orphan s P"
    by (simp_all add: stub_inv_def)
  from table_inv_access [OF t s1] pipe_inv_access [OF pi s1] closures_inv_access [OF t cl pi c s1] no_orphan_access [OF no c s1]
  show ?thesis by (simp add: stub_inv_def)
qed

lemma stub_inv_invoke:
  assumes inv: "stub_inv s P" and c: "c \<in> P" and call: "remote_call prio s c a k = (r, s2)"
  shows "stub_inv s2 (P - {c})"
proof -
  from inv have t: "table_inv s" and cl: "closures_inv s P" and pi: "pipe_inv s"
    and no: "no_orphan s P"
    by (simp_all add: stub_inv_def)
  note mine = closures_invD [OF cl c]
  have other: "c_msgid d \<noteq> c_msgid c \<and> c_future d \<noteq> c_future c"
    if "d \<in> P - {c}" for d
    using that c closures_inv_inj [OF cl] by (auto simp: inj_on_def)
  have inj: "inj_on c_msgid (P - {c})" "inj_on c_future (P - {c})"
    using closures_inv_inj [OF cl] by (auto intro: inj_on_diff)
  show ?thesis
  proof (cases "stub_map s")
    case None
    from call stopped_invocation [OF None mine(3), of prio a k]
    have s2: "s2 = s\<lparr>futures := (futures s)
                      (c_future c := Finished_exception (PyExc CancelledError))\<rparr>"
      by simp
    have "table_inv s2"
      using None by (simp add: s2 table_inv_def)
    moreover have "pipe_inv s2"
      using pi by (simp add: s2 pipe_inv_def)
    moreover have "closures_inv s2 (P - {c})"
    proof (rule closures_invI [OF _ inj])
      fix d assume d: "d \<in> P - {c}"
      then have "d \<in> P" by simp
      note old = closures_invD [OF cl this]
      from old(1-4) other [OF d] None show "c_msgid d < stub_msgid s2 \<and> c_future d < next_future s2
            \<and> futures s2 (c_future d) = Pending
            \<and> c_msgid d \<notin> msgid ` set (stub_pipe s2)
            \<and> (\<forall>m. stub_map s2 = Some m \<longrightarrow>
                  c_msgid d \<notin> fst ` set m \<and> c_future d \<notin> snd ` set m)"
        by (simp add: s2)
    qed
    moreover have "no_orphan s2 (P - {c})"
      unfolding no_orphan_def
    proof (intro allI impI)
      fix f assume "f < next_future s2" and p: "futures s2 f = Pending"
      then have ne: "f \<noteq> c_future c" and "f < next_future s" and "futures s f = Pending"
        by (auto simp: s2 split: if_splits)
      with no None have "f \<in> c_future ` P"
        by (auto simp: no_orphan_def)
      with ne have "f \<in> c_future ` (P - {c})" by blast
      then show "f \<in> c_future ` (P - {c})
          \<or> (case stub_map s2 of None \<Rightarrow> False | Some m \<Rightarrow> f \<in> snd ` set m)"
        by simp
    qed
    ultimately show ?thesis by (simp add: stub_inv_def)
  next
    case (Some m)
    let ?t = "\<lparr>msgid = c_msgid c, func_name = c_name c, args = a, kwargs = k,
                is_urgent = prio (c_name c)\<rparr>"
    from call remote_call_live_fresh [OF Some mine(5) [OF Some], of prio a k]
    have s2: "s2 = s\<lparr>stub_pipe := stub_pipe s @ [?t],
                     stub_map := Some (m @ [(c_msgid c, c_future c)])\<rparr>"
      by simp
    from t Some have dk: "distinct (map fst m)" and df: "distinct (map snd m)"
      and ok: "\<And>k' g. (k', g) \<in> set m \<Longrightarrow>
                 k' < stub_msgid s \<and> g < next_future s \<and> futures s g = Pending"
      by (auto simp: table_inv_def)
    have "table_inv s2"
      unfolding table_inv_def s2
      using dk df ok mine(1-3) mine(5) [OF Some] mine(6) [OF Some] by auto
    moreover have "pipe_inv s2"
      using pi mine(1,4) by (auto simp: s2 pipe_inv_def)
    moreover have "closures_inv s2 (P - {c})"
    proof (rule closures_invI [OF _ inj])
      fix d assume d: "d \<in> P - {c}"
      then have "d \<in> P" by simp
      note old = closures_invD [OF cl this]
      from old(1-4) old(5) [OF Some] old(6) [OF Some] other [OF d]
      show "c_msgid d < stub_msgid s2 \<and> c_future d < next_future s2
            \<and> futures s2 (c_future d) = Pending
            \<and> c_msgid d \<notin> msgid ` set (stub_pipe s2)
            \<and> (\<forall>m. stub_map s2 = Some m \<longrightarrow>
                  c_msgid d \<notin> fst ` set m \<and> c_future d \<notin> snd ` set m)"
        by (simp add: s2)
    qed
    moreover have "no_orphan s2 (P - {c})"
      unfolding no_orphan_def
    proof (intro allI impI)
      fix f assume "f < next_future s2" and p: "futures s2 f = Pending"
      then have "f < next_future s" and "futures s f = Pending"
        by (simp_all add: s2)
      with no Some have "f \<in> c_future ` P \<or> f \<in> snd ` set m"
        by (auto simp: no_orphan_def)
      then have "f \<in> c_future ` (P - {c}) \<or> f = c_future c \<or> f \<in> snd ` set m"
        by blast
      then show "f \<in> c_future ` (P - {c})
          \<or> (case stub_map s2 of None \<Rightarrow> False | Some m \<Rightarrow> f \<in> snd ` set m)"
        by (auto simp: s2)
    qed
    ultimately show ?thesis by (simp add: stub_inv_def)
  qed
qed

lemma table_inv_deliver:
  assumes "table_inv s" and "pump_deliver s tr = (r, s')"
  shows "table_inv s'"
proof (cases "stub_map s")
  case None
  with assms show ?thesis by (auto simp: pump_deliver_def)
next
  case (Some m)
  show ?thesis
  proof (cases "map_of m (r_msgid tr)")
    case None
    with Some assms show ?thesis by (auto simp: pump_deliver_def)
  next
    case (Some f)
    from \<open>stub_map s = Some m\<close> assms(1)
    have dk: "distinct (map fst m)" and df: "distinct (map snd m)"
      and ok: "\<And>k' g. (k', g) \<in> set m \<Longrightarrow>
                 k' < stub_msgid s \<and> g < next_future s \<and> futures s g = Pending"
      by (auto simp: table_inv_def)
    from Some have mem: "(r_msgid tr, f) \<in> set m" by (rule map_of_SomeD)
    with ok have pend: "futures s f = Pending" by blast
    have other: "g \<noteq> f" if "(k', g) \<in> set (AList.delete (r_msgid tr) m)" for k' g
    proof
      assume "g = f"
      with that have "(k', f) \<in> set m" and "k' \<noteq> r_msgid tr"
        by (auto simp: AList.delete_eq)
      with mem df show False
        by (metis distinct_map inj_on_def snd_conv prod.inject)
    qed
    have sub: "set (AList.delete (r_msgid tr) m) \<subseteq> set m"
      by (auto simp: AList.delete_eq)
    have dk': "distinct (map fst (AList.delete (r_msgid tr) m))"
      using dk by (rule distinct_delete)
    have df': "distinct (map snd (AList.delete (r_msgid tr) m))"
      using df by (simp add: AList.delete_eq distinct_map_filter)
    from assms(2) \<open>stub_map s = Some m\<close> Some pend
    have s': "stub_map s' = Some (AList.delete (r_msgid tr) m)"
      "stub_msgid s' = stub_msgid s" "next_future s' = next_future s"
      "\<forall>g. g \<noteq> f \<longrightarrow> futures s' g = futures s g"
      by (auto simp: pump_deliver_def set_result_def set_exception_def Let_def split: if_splits)
    have "k' < stub_msgid s' \<and> g < next_future s' \<and> futures s' g = Pending"
      if "(k', g) \<in> set (AList.delete (r_msgid tr) m)" for k' g
      using that ok [of k' g] other [OF that] sub s' by auto
    with dk' df' show ?thesis
      unfolding table_inv_def s'(1) by auto
  qed
qed

lemma stub_inv_deliver:
  assumes inv: "stub_inv s P" and step: "pump_deliver s tr = (r, s')"
  shows "stub_inv s' P"
proof (cases "\<exists>m f. stub_map s = Some m \<and> map_of m (r_msgid tr) = Some f")
  case False
  then have "stub_map s = None \<or> (\<exists>m. stub_map s = Some m \<and> map_of m (r_msgid tr) = None)"
    by (cases "stub_map s") auto
  from pump_deliver_no_entry [OF this] step have "s' = s" by simp
  with inv show ?thesis by simp
next
  case True
  then obtain m f where live: "stub_map s = Some m" and entry: "map_of m (r_msgid tr) = Some f"
    by blast
  from inv have t: "table_inv s" and cl: "closures_inv s P" and pi: "pipe_inv s"
    and no: "no_orphan s P"
    by (simp_all add: stub_inv_def)
  from t live have dk: "distinct (map fst m)" and df: "distinct (map snd m)"
    and ok: "\<And>k' g. (k', g) \<in> set m \<Longrightarrow> futures s g = Pending"
    by (auto simp: table_inv_def)
  from entry have mem: "(r_msgid tr, f) \<in> set m" by (rule map_of_SomeD)
  then have f_in: "f \<in> snd ` set m" by force
  from mem ok have pend: "futures s f = Pending" by blast
  let ?v = "if r_success tr then Finished_result (r_value tr)
            else Finished_exception (r_value tr)"
  from step pump_deliver_entry [OF live entry pend]
  have s': "s' = s\<lparr>stub_map := Some (AList.delete (r_msgid tr) m),
                   futures := (futures s)(f := ?v)\<rparr>"
    by simp
  have futs: "snd ` set (AList.delete (r_msgid tr) m) = snd ` set m - {f}"
    using dk df entry by (rule delete_entry_futures)
  have keys: "fst ` set (AList.delete (r_msgid tr) m) = fst ` set m - {r_msgid tr}"
    by (rule delete_entry_keys)
  have "table_inv s'"
    using t step by (rule table_inv_deliver)
  moreover have "pipe_inv s'"
    using pi by (simp add: s' pipe_inv_def)
  moreover have "closures_inv s' P"
  proof (rule closures_invI [OF _ closures_inv_inj [OF cl]])
    fix d assume "d \<in> P"
    note old = closures_invD [OF cl this]
    from old(6) [OF live] f_in have "c_future d \<noteq> f" by blast
    with old(1-4) old(5) [OF live] old(6) [OF live]
    show "c_msgid d < stub_msgid s' \<and> c_future d < next_future s'
            \<and> futures s' (c_future d) = Pending
            \<and> c_msgid d \<notin> msgid ` set (stub_pipe s')
            \<and> (\<forall>m. stub_map s' = Some m \<longrightarrow>
                  c_msgid d \<notin> fst ` set m \<and> c_future d \<notin> snd ` set m)"
      by (simp add: s' futs keys)
  qed
  moreover have "no_orphan s' P"
    unfolding no_orphan_def
  proof (intro allI impI)
    fix g assume "g < next_future s'" and p: "futures s' g = Pending"
    then have ne: "g \<noteq> f" and "g < next_future s" and "futures s g = Pending"
      by (auto simp: s' split: if_splits)
    with no live have "g \<in> c_future ` P \<or> g \<in> snd ` set m"
      by (auto simp: no_orphan_def)
    with ne show "g \<in> c_future ` P
        \<or> (case stub_map s' of None \<Rightarrow> False | Some m \<Rightarrow> g \<in> snd ` set m)"
      by (auto simp: s' futs)
  qed
  ultimately show ?thesis by (simp add: stub_inv_def)
qed

lemma stub_inv_cleanup:
  assumes inv: "stub_inv s P" and step: "pump_cleanup s = (r, s')"
  shows "stub_inv s' P"
proof (cases "stub_map s")
  case None
  from pump_cleanup_stopped [OF None] step have "s' = s" by simp
  with inv show ?thesis by simp
next
  case (Some m)
  from inv have t: "table_inv s" and cl: "closures_inv s P" and pi: "pipe_inv s"
    and no: "no_orphan s P"
    by (simp_all add: stub_inv_def)
  from t Some have df: "distinct (map snd m)"
    and pend: "\<forall>f\<in>set (map snd m). futures s f = Pending"
    by (auto simp: table_inv_def)
  from step pump_cleanup_live [OF Some df pend]
  have s': "s' = s\<lparr>futures := (\<lambda>x. if x \<in> set (map snd m)
                                       then Finished_exception (PyExc CancelledError)
                                       else futures s x),
                   stub_map := None\<rparr>"
    by simp
  have "table_inv s'"
    by (simp add: s' table_inv_def)
  moreover have "pipe_inv s'"
    using pi by (simp add: s' pipe_inv_def)
  moreover have "closures_inv s' P"
  proof (rule closures_invI [OF _ closures_inv_inj [OF cl]])
    fix d assume "d \<in> P"
    note old = closures_invD [OF cl this]
    from old(1-4) old(6) [OF Some]
    show "c_msgid d < stub_msgid s' \<and> c_future d < next_future s'
            \<and> futures s' (c_future d) = Pending
            \<and> c_msgid d \<notin> msgid ` set (stub_pipe s')
            \<and> (\<forall>m. stub_map s' = Some m \<longrightarrow>
                  c_msgid d \<notin> fst ` set m \<and> c_future d \<notin> snd ` set m)"
      by (simp add: s')
  qed
  moreover have "no_orphan s' P"
    unfolding no_orphan_def
  proof (intro allI impI)
    fix g assume "g < next_future s'" and p: "futures s' g = Pending"
    then have "g \<notin> snd ` set m" and "g < next_future s" and "futures s g = Pending"
      by (auto simp: s' split: if_splits)
    with no Some have "g \<in> c_future ` P"
      by (auto simp: no_orphan_def)
    then show "g \<in> c_future ` P
        \<or> (case stub_map s' of None \<Rightarrow> False | Some m \<Rightarrow> g \<in> snd ` set m)"
      by simp
  qed
  ultimately show ?thesis by (simp add: stub_inv_def)
qed

text \<open>
  When every closure is invoked at most once, all of it holds in every state, however
  the callers and the pump interleave.
\<close>

lemma reachable_inv: "reachable s P \<Longrightarrow> stub_inv s P"
proof (induction rule: reachable.induct)
  case (reachable_init p)
  show ?case by (rule stub_inv_init)
next
  case (reachable_access s P name c s1)
  then show ?case by (blast intro: stub_inv_access)
next
  case (reachable_invoke s P c prio a k r s2)
  then show ?case by (blast intro: stub_inv_invoke)
next
  case (reachable_deliver s P tr r s')
  then show ?case by (blast intro: stub_inv_deliver)
next
  case (reachable_cleanup s P r s')
  then show ?case by (blast intro: stub_inv_cleanup)
qed

lemma reachable_table_pending:
  assumes "reachable s P" and "stub_map s = Some m"
  shows "distinct (map snd m) \<and> (\<forall>f\<in>set (map snd m). futures s f = Pending)"
  using reachable_inv [OF assms(1)] assms(2)
  by (auto simp: stub_inv_def table_inv_def)

lemma reachable_msgids_distinct:
  assumes "reachable s P"
  shows "distinct (map msgid (stub_pipe s))"
  using reachable_inv [OF assms] by (simp add: stub_inv_def pipe_inv_def)

text \<open>
  A msgid that is handed out is larger than every msgid handed out before: than those of
  the waiting closures, of the Tasks sent and of the entries of the table.
\<close>

lemma issued_msgid_is_larger:
  assumes "reachable s P" and "stub_getattr s name = (c, s1)"
  shows "(\<forall>d\<in>P. c_msgid d < c_msgid c)
       \<and> (\<forall>t\<in>set (stub_pipe s). msgid t < c_msgid c)
       \<and> (\<forall>m. stub_map s = Some m \<longrightarrow> (\<forall>k\<in>fst ` set m. k < c_msgid c))"
proof -
  from assms(2) have c: "c_msgid c = stub_msgid s"
    by (auto simp: stub_getattr_eq)
  from reachable_inv [OF assms(1)]
  have "table_inv s" and cl: "closures_inv s P" and "pipe_inv s"
    by (simp_all add: stub_inv_def)
  then show ?thesis
    unfolding c using closures_invD(1) [OF cl]
    by (auto simp: table_inv_def pipe_inv_def)
qed

text \<open>
  A future that is still unresolved on a stopped stub belongs to a closure that has not
  been invoked: the poison pill leaves no call that was made without an answer.
\<close>

lemma stopped_leaves_nothing_pending:
  assumes "reachable s P" and "stub_map s = None"
    and "f < next_future s" and "futures s f = Pending"
  shows "f \<in> c_future ` P"
  using reachable_inv [OF assms(1)] assms(2-4)
  by (auto simp: stub_inv_def no_orphan_def)

text \<open>
  So the pump of such a stub raises neither on a TaskResult whose msgid is in the table
  nor on the poison pill.
\<close>

lemma reachable_deliver_resolves:
  assumes "reachable s P" and "stub_map s = Some m" and "map_of m (r_msgid tr) = Some f"
  shows "\<exists>s'. pump_deliver s tr = (None, s')
           \<and> futures s' f = (if r_success tr then Finished_result (r_value tr)
                              else Finished_exception (r_value tr))
           \<and> stub_map s' = Some (AList.delete (r_msgid tr) m)"
proof -
  from assms(3) have "f \<in> set (map snd m)"
    by (force dest: map_of_SomeD)
  with reachable_table_pending [OF assms(1,2)] have "futures s f = Pending"
    by blast
  from pump_deliver_entry [OF assms(2,3) this] show ?thesis
    by simp
qed

lemma reachable_pill_stops:
  assumes "reachable s P" and "stub_map s = Some m"
  shows "\<exists>s'. msg_pump s (None # rest) = (Exited, s') \<and> stub_map s' = None
           \<and> (\<forall>f\<in>set (map snd m). futures s' f = Finished_exception (PyExc CancelledError))"
proof -
  from reachable_table_pending [OF assms]
  have "distinct (map snd m)" and "\<forall>f\<in>set (map snd m). futures s f = Pending"
    by simp_all
  from pump_cleanup_live [OF assms(2) this] show ?thesis
    by simp
qed

subsection \<open>The message pump resolves the future of a TaskResult\<close>

text \<open>
  C1. When the pump of a live stub receives a TaskResult whose msgid is in the pending-call
  table, bound to a future that is still unresolved, it removes that entry from the
  table and resolves the removed future: with the value as result when \<open>success\<close> is
  true, with the payload as exception otherwise. The other entries of the table, the
  other futures, the pipe and the msgid counter are left as they were, and the pump
  goes on with the next message. The block runs under \<^verbatim>\<open>self._lock\<close>: it is one step.
\<close>

theorem pump_resolves_pending_future:
  assumes "stub_map s = Some m"
    and "map_of m (r_msgid tr) = Some f"
    and "futures s f = Pending"
  shows "\<exists>s'. pump_deliver s tr = (None, s')
           \<and> msg_pump s (Some tr # rest) = msg_pump s' rest
           \<and> stub_map s' = Some (AList.delete (r_msgid tr) m)
           \<and> map_of (AList.delete (r_msgid tr) m) (r_msgid tr) = None
           \<and> (\<forall>k. k \<noteq> r_msgid tr \<longrightarrow> map_of (AList.delete (r_msgid tr) m) k = map_of m k)
           \<and> futures s' f =
               (if r_success tr then Finished_result (r_value tr)
                else Finished_exception (r_value tr))
           \<and> (\<forall>g. g \<noteq> f \<longrightarrow> futures s' g = futures s g)
           \<and> stub_pipe s' = stub_pipe s \<and> stub_msgid s' = stub_msgid s"
  using assms
  by (cases "r_success tr")
     (simp_all add: pump_deliver_def set_result_def set_exception_def delete_conv)

theorem pump_resolves_pending_future_witness:
  "stub_map echo_called = Some [(0, 0)]
   \<and> map_of [(0, 0)] (r_msgid \<lparr>r_msgid = 0, r_success = True, r_value = PyInt 5\<rparr>) = Some (0::nat)
   \<and> futures echo_called 0 = Pending
   \<and> (\<exists>s'. pump_deliver echo_called \<lparr>r_msgid = 0, r_success = True, r_value = PyInt 5\<rparr> = (None, s')
          \<and> stub_map s' = Some []
          \<and> futures s' 0 = Finished_result (PyInt 5))"
  using pump_resolves_pending_future
    [of echo_called "[(0, 0)]" "\<lparr>r_msgid = 0, r_success = True, r_value = PyInt 5\<rparr>" 0 "[]"]
  by (simp add: echo_called_def echo_access_def stub_getattr_def remote_call_def make_stub_def
      pump_deliver_def set_result_def Let_def)

subsection \<open>A remote call\<close>



subsection \<open>The poison pill\<close>




subsection \<open>The msgids of the Tasks\<close>

text \<open>
  C4. After \<^verbatim>\<open>f = stub.echo; f(5); f(6)\<close> on a fresh stub the pipe holds two Tasks with the
  msgid 0: the second call has a msgid that is not larger than that of the first and that
  a pending call already has. Both calls wait on the one table entry 0, and the second
  TaskResult for 0 ends the pump with a \<^verbatim>\<open>KeyError\<close>.
\<close>

theorem reused_closure_repeats_msgid:
  "map msgid (stub_pipe echo_called_twice) = [0, 0]
   \<and> \<not> distinct (map msgid (stub_pipe echo_called_twice))
   \<and> stub_map echo_called_twice = Some [(0, 0)]
   \<and> futures echo_called_twice 0 = Pending
   \<and> fst (msg_pump echo_called_twice
            [Some \<lparr>r_msgid = 0, r_success = True, r_value = PyInt 5\<rparr>,
             Some \<lparr>r_msgid = 0, r_success = True, r_value = PyInt 6\<rparr>])
       = Crashed (KeyError 0)"
  by (simp add: echo_called_twice_def echo_called_def echo_access_def stub_getattr_def
      remote_call_def make_stub_def pump_deliver_def set_result_def Let_def)

subsection \<open>The dispatch loop of the worker\<close>

text \<open>
  A Task that names no attribute of the hosted object, on the class with the methods
  \<^verbatim>\<open>echo\<close> and \<^verbatim>\<open>fail\<close>: \<^verbatim>\<open>_run\<close> logs the \<^verbatim>\<open>AttributeError\<close> and raises it, and no
  TaskResult has been sent.
\<close>

theorem missing_method_counterexample:
  "run echo_class (new_worker ())
     [\<lparr>msgid = 7, func_name = ''nope'', args = [], kwargs = [], is_urgent = True\<rparr>]
   = (Some (AttributeError ''nope''), new_worker (), [AttributeError ''nope''])
   \<and> worker_pipe (new_worker ()) = []"
  by (simp add: run_def dispatch_def echo_class_def new_worker_def)

text \<open>
  C5, as the code has it. For every Task whose method name is no attribute of the hosted
  object, \<^verbatim>\<open>getattr\<close> raises \<^verbatim>\<open>AttributeError\<close> out of the dispatch loop: the loop ends
  with the worker as it was (no TaskResult is sent for the Task, the Tasks behind it are
  not taken), and \<^verbatim>\<open>_run\<close> logs the exception and raises it again.
\<close>

theorem missing_method_ends_loop:
  assumes "attrs (func_name task) = None"
  shows "dispatch attrs w task = Inl (AttributeError (func_name task))
       \<and> run_impl attrs w (task # tasks) = (Some (AttributeError (func_name task)), w)
       \<and> run attrs w (task # tasks)
           = (Some (AttributeError (func_name task)), w, [AttributeError (func_name task)])"
  using assms by (simp add: dispatch_def run_def)

theorem missing_method_ends_loop_witness:
  "echo_class (func_name \<lparr>msgid = 7, func_name = ''nope'', args = [], kwargs = [],
                           is_urgent = False\<rparr>) = None
   \<and> run_impl echo_class (new_worker ())
        [\<lparr>msgid = 7, func_name = ''nope'', args = [], kwargs = [], is_urgent = False\<rparr>,
         \<lparr>msgid = 8, func_name = ''echo'', args = [PyInt 5], kwargs = [], is_urgent = True\<rparr>]
       = (Some (AttributeError ''nope''), new_worker ())"
  using missing_method_ends_loop [of echo_class
      "\<lparr>msgid = 7, func_name = ''nope'', args = [], kwargs = [], is_urgent = False\<rparr>"
      "new_worker ()"
      "[\<lparr>msgid = 8, func_name = ''echo'', args = [PyInt 5], kwargs = [], is_urgent = True\<rparr>]"]
  by (simp add: echo_class_def)

text \<open>
  The call \<^verbatim>\<open>stub.nope()\<close> from end to end: the worker ends without a TaskResult, and the
  poison pill that follows the end of the process cancels the future of the call.
\<close>

lemma missing_method_round_trip:
  "\<exists>c s1 s2 w lg s3.
      stub_getattr (make_stub 0) ''nope'' = (c, s1)
    \<and> remote_call (\<lambda>_. False) s1 c [] [] = (Inr (c_future c), s2)
    \<and> run echo_class (new_worker ()) (stub_pipe s2) = (Some (AttributeError ''nope''), w, lg)
    \<and> worker_pipe w = []
    \<and> msg_pump s2 (map Some (worker_pipe w) @ [None]) = (Exited, s3)
    \<and> futures s3 (c_future c) = Finished_exception (PyExc CancelledError)"
  by (simp add: stub_getattr_def remote_call_def make_stub_def run_def dispatch_def
      echo_class_def new_worker_def pump_cleanup_def set_exception_def Let_def)

text \<open>
  C6. For every urgent Task whose name resolves to a method, the dispatch loop runs the
  method within the same round, leaves the pool's queue as it is, and sends one
  TaskResult with the Task's msgid: successful with the value when the method returns,
  failed with the exception when it raises. The round does not raise, and the loop goes
  on with the next Task.
\<close>

theorem urgent_task_runs_inline:
  assumes "is_urgent task"
    and "attrs (func_name task) = Some (Method the_func)"
    and "the_func (hosted w) (args task) (kwargs task) = (out, ob)"
  shows "\<exists>w'. dispatch attrs w task = Inr w'
           \<and> worker_pipe w' = worker_pipe w @
               [case out of
                  Returns res \<Rightarrow> \<lparr>r_msgid = msgid task, r_success = True, r_value = res\<rparr>
                | Raises e \<Rightarrow> \<lparr>r_msgid = msgid task, r_success = False, r_value = PyExc e\<rparr>]
           \<and> pool_queue w' = pool_queue w
           \<and> hosted w' = ob
           \<and> run_impl attrs w (task # tasks) = run_impl attrs w' tasks"
  using assms by (cases out) (simp_all add: dispatch_def send_def)

theorem urgent_task_runs_inline_witness:
  "is_urgent \<lparr>msgid = 8, func_name = ''fail'', args = [PyInt 5], kwargs = [], is_urgent = True\<rparr>
   \<and> (\<exists>w'. dispatch echo_class (new_worker ())
             \<lparr>msgid = 8, func_name = ''fail'', args = [PyInt 5], kwargs = [], is_urgent = True\<rparr>
            = Inr w'
          \<and> worker_pipe w' = [\<lparr>r_msgid = 8, r_success = False, r_value = PyExc (AppError ''x'')\<rparr>]
          \<and> pool_queue w' = [])
   \<and> (\<exists>w'. dispatch echo_class (new_worker ())
             \<lparr>msgid = 7, func_name = ''echo'', args = [PyInt 5], kwargs = [], is_urgent = True\<rparr>
            = Inr w'
          \<and> worker_pipe w' = [\<lparr>r_msgid = 7, r_success = True, r_value = PyInt 5\<rparr>]
          \<and> pool_queue w' = [])"
  using urgent_task_runs_inline [of
      "\<lparr>msgid = 8, func_name = ''fail'', args = [PyInt 5], kwargs = [], is_urgent = True\<rparr>"
      echo_class "\<lambda>ob a k. (Raises (AppError ''x''), ob)" "new_worker ()"
      "Raises (AppError ''x'')" "()" "[]"]
    urgent_task_runs_inline [of
      "\<lparr>msgid = 7, func_name = ''echo'', args = [PyInt 5], kwargs = [], is_urgent = True\<rparr>"
      echo_class "\<lambda>ob a k. (case a of [] \<Rightarrow> Raises TypeError | v # _ \<Rightarrow> Returns v, ob)"
      "new_worker ()" "Returns (PyInt 5)" "()" "[]"]
  by (simp add: echo_class_def new_worker_def dispatch_def send_def)

text \<open>
  A Task that is not urgent is queued, and the pool's thread sends its TaskResult. The
  call \<^verbatim>\<open>stub.echo(5)\<close>, served by a worker that hosts the class with \<^verbatim>\<open>echo\<close>, resolves
  its future to 5.
\<close>

lemma queued_task_result:
  assumes "\<not> is_urgent task"
    and "attrs (func_name task) = Some (Method the_func)"
    and "the_func (hosted w) (args task) (kwargs task) = (out, ob)"
    and "pool_queue w = []"
  shows "\<exists>w'. dispatch attrs w task = Inr w'
           \<and> worker_pipe w' = worker_pipe w
           \<and> worker_pipe (pool_run_next w') = worker_pipe w @
               [case out of
                  Returns res \<Rightarrow> \<lparr>r_msgid = msgid task, r_success = True, r_value = res\<rparr>
                | Raises e \<Rightarrow> \<lparr>r_msgid = msgid task, r_success = False, r_value = PyExc e\<rparr>]"
  using assms
  by (cases out) (simp_all add: dispatch_def pool_run_next_def on_done_def send_def)

lemma echo_round_trip:
  "\<exists>w s. run_impl echo_class (new_worker ()) (stub_pipe echo_called) = (None, w)
     \<and> msg_pump echo_called (map Some (worker_pipe (pool_run_next w))) = (Blocked, s)
     \<and> futures s (c_future (fst echo_access)) = Finished_result (PyInt 5)
     \<and> stub_map s = Some []"
  by (simp add: echo_called_def echo_access_def stub_getattr_def remote_call_def make_stub_def
      echo_class_def new_worker_def dispatch_def pool_run_next_def on_done_def send_def
      pump_deliver_def set_result_def Let_def)

subsection \<open>The closure of an attribute access\<close>

lemma invoke_all_live:
  "stub_map s = Some m \<Longrightarrow>
   \<exists>s' m'. invoke_all prio s c calls = (map (\<lambda>_. Inr (c_future c)) calls, s')
      \<and> stub_pipe s' = stub_pipe s @
           map (\<lambda>(a, k). \<lparr>msgid = c_msgid c, func_name = c_name c, args = a, kwargs = k,
                           is_urgent = prio (c_name c)\<rparr>) calls
      \<and> stub_msgid s' = stub_msgid s \<and> next_future s' = next_future s
      \<and> futures s' = futures s
      \<and> stub_map s' = Some m'
      \<and> (calls \<noteq> [] \<longrightarrow> map_of m' (c_msgid c) = Some (c_future c))"
proof (induction calls arbitrary: s m)
  case Nil
  then show ?case by simp
next
  case (Cons call calls)
  obtain a k where call: "call = (a, k)" by (cases call)
  let ?s1 = "s\<lparr>stub_pipe := stub_pipe s @
                  [\<lparr>msgid = c_msgid c, func_name = c_name c, args = a, kwargs = k,
                    is_urgent = prio (c_name c)\<rparr>],
                stub_map := Some (AList.update (c_msgid c) (c_future c) m)\<rparr>"
  from Cons.prems have step: "remote_call prio s c a k = (Inr (c_future c), ?s1)"
    by (simp add: remote_call_def Let_def)
  have live: "stub_map ?s1 = Some (AList.update (c_msgid c) (c_future c) m)"
    by simp
  from Cons.IH [OF live] obtain s' m'
    where rest: "invoke_all prio ?s1 c calls = (map (\<lambda>_. Inr (c_future c)) calls, s')"
      and pipe: "stub_pipe s' = stub_pipe ?s1 @
           map (\<lambda>(a, k). \<lparr>msgid = c_msgid c, func_name = c_name c, args = a, kwargs = k,
                           is_urgent = prio (c_name c)\<rparr>) calls"
      and same: "stub_msgid s' = stub_msgid ?s1" "next_future s' = next_future ?s1"
        "futures s' = futures ?s1"
      and table: "stub_map s' = Some m'"
        "calls \<noteq> [] \<longrightarrow> map_of m' (c_msgid c) = Some (c_future c)"
    by blast
  have entry: "map_of m' (c_msgid c) = Some (c_future c)"
  proof (cases calls)
    case Nil
    with rest have "s' = ?s1" by simp
    with table(1) have "m' = AList.update (c_msgid c) (c_future c) m" by simp
    then show ?thesis by (simp add: update_conv')
  next
    case (Cons x xs)
    with table(2) show ?thesis by simp
  qed
  from step rest pipe same table(1) entry show ?case
    by (simp add: call)
qed

text \<open>
  On a stopped stub the first invocation of a closure returns its future without
  registering it (the map stays \<^verbatim>\<open>None\<close>), and the second invocation does not return the
  future: it is already failed, and \<^verbatim>\<open>set_exception\<close> raises \<^verbatim>\<open>InvalidStateError\<close>.
\<close>

theorem stopped_reinvocation_counterexample:
  "fst (invoke_all (\<lambda>_. False) (snd stopped_access) (fst stopped_access) [([], [])])
     = [Inr 0]
   \<and> stub_map (snd (invoke_all (\<lambda>_. False) (snd stopped_access) (fst stopped_access)
                      [([], [])])) = None
   \<and> fst (invoke_all (\<lambda>_. False) (snd stopped_access) (fst stopped_access) [([], []), ([], [])])
     = [Inr 0, Inl InvalidStateError]"
  by (simp add: stopped_access_def stopped_stub_def stub_getattr_def remote_call_def
      make_stub_def pump_cleanup_def set_exception_def Let_def)

text \<open>
  C8, as the code has it. An attribute access takes exactly one msgid (the counter goes up
  by one) and creates exactly one unresolved future, and neither sends nor registers
  anything. On a live stub, however often the closure it returned is invoked, every
  invocation returns that same future, sends a Task with that same msgid, and leaves
  the counter and the store's next address alone; after an invocation the table binds
  the msgid to the future.
\<close>

theorem msgid_and_future_fixed_at_access:
  "case stub_getattr s name of (c, s1) \<Rightarrow>
     c_msgid c = stub_msgid s \<and> stub_msgid s1 = stub_msgid s + 1
   \<and> c_future c = next_future s \<and> next_future s1 = Suc (next_future s)
   \<and> futures s1 (c_future c) = Pending
   \<and> stub_pipe s1 = stub_pipe s \<and> stub_map s1 = stub_map s
   \<and> (\<forall>m. stub_map s = Some m \<longrightarrow>
        (\<exists>s' m'. invoke_all prio s1 c calls = (map (\<lambda>_. Inr (c_future c)) calls, s')
           \<and> map msgid (stub_pipe s') = map msgid (stub_pipe s) @ map (\<lambda>_. c_msgid c) calls
           \<and> stub_msgid s' = stub_msgid s1 \<and> next_future s' = next_future s1
           \<and> stub_map s' = Some m'
           \<and> (calls \<noteq> [] \<longrightarrow> map_of m' (c_msgid c) = Some (c_future c))))"
proof -
  obtain c s1 where acc: "stub_getattr s name = (c, s1)"
    by (cases "stub_getattr s name")
  then have fields: "c_msgid c = stub_msgid s" "stub_msgid s1 = stub_msgid s + 1"
      "c_future c = next_future s" "next_future s1 = Suc (next_future s)"
      "futures s1 (c_future c) = Pending" "stub_pipe s1 = stub_pipe s"
      "stub_map s1 = stub_map s"
    by (auto simp: stub_getattr_def Let_def)
  have "\<exists>s' m'. invoke_all prio s1 c calls = (map (\<lambda>_. Inr (c_future c)) calls, s')
           \<and> map msgid (stub_pipe s') = map msgid (stub_pipe s) @ map (\<lambda>_. c_msgid c) calls
           \<and> stub_msgid s' = stub_msgid s1 \<and> next_future s' = next_future s1
           \<and> stub_map s' = Some m'
           \<and> (calls \<noteq> [] \<longrightarrow> map_of m' (c_msgid c) = Some (c_future c))"
    if "stub_map s = Some m" for m
  proof -
    from that fields(7) have "stub_map s1 = Some m" by simp
    from invoke_all_live [OF this, of prio c calls] obtain s' m'
      where "invoke_all prio s1 c calls = (map (\<lambda>_. Inr (c_future c)) calls, s')"
        and "stub_pipe s' = stub_pipe s1 @
           map (\<lambda>(a, k). \<lparr>msgid = c_msgid c, func_name = c_name c, args = a, kwargs = k,
                           is_urgent = prio (c_name c)\<rparr>) calls"
        and "stub_msgid s' = stub_msgid s1" "next_future s' = next_future s1"
        and "stub_map s' = Some m'"
        and "calls \<noteq> [] \<longrightarrow> map_of m' (c_msgid c) = Some (c_future c)"
      by blast
    then show ?thesis
      using fields(6) by (auto simp: comp_def case_prod_beta)
  qed
  with acc fields show ?thesis by auto
qed

theorem msgid_and_future_fixed_at_access_witness:
  "stub_map (make_stub 0) = Some []
   \<and> c_msgid (fst echo_access) = 0 \<and> stub_msgid (snd echo_access) = 1
   \<and> (\<exists>s'. invoke_all (\<lambda>_. False) (snd echo_access) (fst echo_access)
               [([PyInt 5], []), ([PyInt 6], [])] = ([Inr 0, Inr 0], s')
           \<and> map msgid (stub_pipe s') = [0, 0]
           \<and> stub_msgid s' = 1
           \<and> stub_map s' = Some [(0, 0)])"
  using msgid_and_future_fixed_at_access
    [where s = "make_stub 0" and name = "''echo''" and prio = "\<lambda>_. False"
       and calls = "[([PyInt 5], []), ([PyInt 6], [])]"]
  by (simp add: echo_access_def stub_getattr_def remote_call_def make_stub_def Let_def)

subsection \<open>The pool\<close>

lemma shutdown_all_trace:
  "shutdown_all kill ss tr = (None, tr @ map (\<lambda>s. Kill (stub_process s)) ss)"
  by (induction ss arbitrary: tr) (simp_all add: shutdown_def process_kill_def split: option.splits)

lemma join_all_trace:
  "join_all ss tr =
     tr @ concat (map (\<lambda>s. [JoinObserver (stub_process s), JoinPump (stub_process s),
                              JoinProcess (stub_process s)]) ss)"
  by (induction ss arbitrary: tr) (simp_all add: join_def)

lemma exit_trace:
  "LocalWorkerPool_exit kill ss tr =
     (None, tr @ map (\<lambda>s. Kill (stub_process s)) ss
               @ concat (map (\<lambda>s. [JoinObserver (stub_process s), JoinPump (stub_process s),
                                      JoinProcess (stub_process s)]) ss))"
  by (simp add: LocalWorkerPool_exit_def shutdown_all_trace join_all_trace)

lemma stub_process_make_stub: "stub_process (make_stub p) = p"
  by (simp add: make_stub_def)

lemma init_positive:
  "0 < K \<Longrightarrow> LocalWorkerPool_init cpus (Some K) = map make_stub [0..<nat K]"
  by (simp add: LocalWorkerPool_init_def range_upto_def)

text \<open>
  C7. For every positive count \<open>K\<close> the pool holds exactly \<open>K\<close> stubs, each freshly made
  with a process of its own; entering the scope yields that list; leaving it kills the
  process of every stub, in order, and only then joins the observer, the pump and the
  process of every stub, in order.
\<close>

theorem pool_of_K_stubs_shutdown_then_join:
  assumes "0 < K"
  shows "length (LocalWorkerPool_init cpus (Some K)) = nat K
       \<and> LocalWorkerPool_init cpus (Some K) = map make_stub [0..<nat K]
       \<and> map stub_process (LocalWorkerPool_init cpus (Some K)) = [0..<nat K]
       \<and> distinct (map stub_process (LocalWorkerPool_init cpus (Some K)))
       \<and> LocalWorkerPool_enter (LocalWorkerPool_init cpus (Some K))
           = LocalWorkerPool_init cpus (Some K)
       \<and> LocalWorkerPool_exit kill (LocalWorkerPool_init cpus (Some K)) tr
           = (None, tr @ map Kill [0..<nat K]
                       @ concat (map (\<lambda>p. [JoinObserver p, JoinPump p, JoinProcess p])
                                   [0..<nat K]))"
proof -
  have procs: "map stub_process (map make_stub [0..<nat K]) = [0..<nat K]"
    by (simp add: stub_process_make_stub comp_def)
  show ?thesis
    unfolding init_positive [OF assms] exit_trace LocalWorkerPool_enter_def
    using procs by (simp add: comp_def stub_process_make_stub)
qed

theorem pool_of_K_stubs_shutdown_then_join_witness:
  "(0::int) < 3
   \<and> map stub_process (LocalWorkerPool_init 8 (Some 3)) = [0, 1, 2]
   \<and> LocalWorkerPool_exit (\<lambda>_. None) (LocalWorkerPool_init 8 (Some 3)) []
       = (None, [Kill 0, Kill 1, Kill 2,
                 JoinObserver 0, JoinPump 0, JoinProcess 0,
                 JoinObserver 1, JoinPump 1, JoinProcess 1,
                 JoinObserver 2, JoinPump 2, JoinProcess 2])"
proof -
  have three: "[0..<nat 3] = [0, 1, 2]"
    by (simp add: upt_rec)
  have pos: "(0::int) < 3"
    by simp
  note run = pool_of_K_stubs_shutdown_then_join [OF pos, of 8 "\<lambda>_. None" "[]"]
  from run have "map stub_process (LocalWorkerPool_init 8 (Some 3)) = [0..<nat 3]"
    by blast
  moreover from run
  have "LocalWorkerPool_exit (\<lambda>_. None) (LocalWorkerPool_init 8 (Some 3)) []
          = (None, [] @ map Kill [0..<nat 3]
                    @ concat (map (\<lambda>p. [JoinObserver p, JoinPump p, JoinProcess p])
                                [0..<nat 3]))"
    by blast
  ultimately show ?thesis
    unfolding three by simp
qed



text \<open>A negative count gives an empty pool, not a pool of that many stubs.\<close>

theorem negative_count_counterexample:
  "LocalWorkerPool_init 8 (Some (- 1)) = []
   \<and> int (length (LocalWorkerPool_init 8 (Some (- 1)))) \<noteq> - 1"
  by (simp add: LocalWorkerPool_init_def range_upto_def)

text \<open>
  C10, as the code has it. A pool made with count 0 or with no count has as many stubs as
  the host has CPUs, and is not empty when that number is positive; a pool made with a
  positive count has exactly that many stubs; a pool made with a negative count is
  empty.
\<close>

theorem pool_size:
  "length (LocalWorkerPool_init cpu_count None) = nat cpu_count
   \<and> length (LocalWorkerPool_init cpu_count (Some 0)) = nat cpu_count
   \<and> (0 < cpu_count \<longrightarrow>
        LocalWorkerPool_init cpu_count None \<noteq> []
        \<and> LocalWorkerPool_init cpu_count (Some 0) \<noteq> [])
   \<and> (0 < c \<longrightarrow> length (LocalWorkerPool_init cpu_count (Some c)) = nat c)
   \<and> (c < 0 \<longrightarrow> LocalWorkerPool_init cpu_count (Some c) = [])"
  by (auto simp: LocalWorkerPool_init_def range_upto_def)

theorem pool_size_witness:
  "(0::int) < 8
   \<and> length (LocalWorkerPool_init 8 (Some 0)) = 8
   \<and> length (LocalWorkerPool_init 8 None) = 8
   \<and> LocalWorkerPool_init 8 (Some 0) \<noteq> []
   \<and> (0::int) < 3 \<and> length (LocalWorkerPool_init 8 (Some 3)) = 3
   \<and> (- 2::int) < 0 \<and> LocalWorkerPool_init 8 (Some (- 2)) = []"
  using pool_size [of 8 3] pool_size [of 8 "- 2"]
  by simp

end
